theory Spec2Isabelle
  imports Main "HOL-Library.Word" "HOL-Library.Monad_Syntax" "HOL-Library.Sublist"
begin

section \<open>The notebook's global state\<close>

text \<open>
  The reference notebook keeps three module-level objects: the dictionary \<open>fibs\<close> used by
  the hash map implementation, and the two annotation lists \<open>map_annots\<close> and
  \<open>dyn_annots\<close>. Python integers are unbounded (\<open>int\<close>); the NumPy buffer of the dynamic
  programming implementation is allocated with \<open>dtype=int\<close>, a signed 64-bit integer,
  modelled as \<open>64 word\<close> and read back with \<open>sint\<close>.

  An annotation is the record built by \<open>pybryt.Value(obj, success_message=..., name=...)\<close>;
  its first field holds the contents of the tracked object at the moment of the call.
\<close>

datatype payload = Dict "int \<rightharpoonup> int" | Array "64 word list"

datatype annotation = Value payload string string

record state =
  fibs :: "int \<rightharpoonup> int"
  map_annots :: "annotation list"
  dyn_annots :: "annotation list"

text \<open>Cell 1 and the first line of cell 2: both lists and the dictionary start empty.\<close>

definition init_state :: state where
  "init_state = \<lparr>fibs = Map.empty, map_annots = [], dyn_annots = []\<rparr>"

section \<open>Hash map implementation\<close>

text \<open>
  \<^verbatim>\<open>
  def fibonacci(n, track=True):
      if n == 0: return 0
      if n == 1: return 1
      if n in fibs: return fibs[n]
      f = fibonacci(n-1) + fibonacci(n-2)
      fibs[n] = f
      if track:
          map_annots.append(pybryt.Value(fibs, success_message=..., name="hash_map"))
      return f
  \<close>
  The two inner calls do not pass \<open>track\<close>, so they run with the default \<open>True\<close>.
  For a negative \<open>n\<close> that is not a key the recursion need not end; the function is
  therefore a partial one, with \<open>None\<close> for a call that does not return.
\<close>

partial_function (option)
  fibonacci_map :: "int \<Rightarrow> bool \<Rightarrow> state \<Rightarrow> (int \<times> state) option"
where
  "fibonacci_map n track s =
     (if n = 0 then Some (0, s)
      else if n = 1 then Some (1, s)
      else case fibs s n of
        Some v \<Rightarrow> Some (v, s)
      | None \<Rightarrow> do {
          (a, s1) \<leftarrow> fibonacci_map (n - 1) True s;
          (b, s2) \<leftarrow> fibonacci_map (n - 2) True s1;
          let f = a + b;
          let s3 = s2\<lparr>fibs := (fibs s2)(n \<mapsto> f)\<rparr>;
          let s4 = (if track
                    then s3\<lparr>map_annots := map_annots s3 @
                           [Value (Dict (fibs s3)) ''Found hash map implementation'' ''hash_map'']\<rparr>
                    else s3);
          Some (f, s4)
        })"

declare fibonacci_map.simps [code]

text \<open>
  The state left by the last statements of the recursive branch, \<^verbatim>\<open>fibs[n] = f\<close> followed by
  the guarded \<^verbatim>\<open>map_annots.append(...)\<close>; a name for it keeps the lemmas below readable.
\<close>

definition store :: "int \<Rightarrow> int \<Rightarrow> bool \<Rightarrow> state \<Rightarrow> state" where
  "store n f track s2 =
     (let s3 = s2\<lparr>fibs := (fibs s2)(n \<mapsto> f)\<rparr>
      in if track
         then s3\<lparr>map_annots := map_annots s3 @
                [Value (Dict (fibs s3)) ''Found hash map implementation'' ''hash_map'']\<rparr>
         else s3)"

text \<open>
  The loops of cells 3 and 4, \<^verbatim>\<open>for n in ns: fibonacci(n, track)\<close>: the calls run one after
  the other on the same global state, and the returned values are collected in order.
\<close>

fun call_seq :: "int list \<Rightarrow> bool \<Rightarrow> state \<Rightarrow> (int list \<times> state) option" where
  "call_seq [] track s = Some ([], s)"
| "call_seq (n # ns) track s = do {
     (v, s1) \<leftarrow> fibonacci_map n track s;
     (vs, s2) \<leftarrow> call_seq ns track s1;
     Some (v # vs, s2)
   }"

text \<open>
  The states a session can be in: the initial one, and every state left by a call of the
  hash map implementation with a non-negative index.
\<close>

inductive reachable :: "state \<Rightarrow> bool" where
  reachable_init: "reachable init_state"
| reachable_call:
    "reachable s \<Longrightarrow> 0 \<le> n \<Longrightarrow> fibonacci_map n track s = Some (v, s') \<Longrightarrow> reachable s'"

subsection \<open>The same function with its primitive operations logged\<close>

text \<open>
  An instrumented copy of the hash map implementation: the control flow and the state
  changes are those of \<open>fibonacci_map\<close>, and the third component of the result lists the
  primitive operations in the order they happen: every entry into the function, every
  addition of two subresults and every insertion into the dictionary, each tagged with
  the index it is made for.
\<close>

datatype prim_op = Invoke int | Addition int | Insertion int

partial_function (option)
  fibonacci_map_ops :: "int \<Rightarrow> bool \<Rightarrow> state \<Rightarrow> (int \<times> state \<times> prim_op list) option"
where
  "fibonacci_map_ops n track s =
     (if n = 0 then Some (0, s, [Invoke n])
      else if n = 1 then Some (1, s, [Invoke n])
      else case fibs s n of
        Some v \<Rightarrow> Some (v, s, [Invoke n])
      | None \<Rightarrow> do {
          (a, s1, l1) \<leftarrow> fibonacci_map_ops (n - 1) True s;
          (b, s2, l2) \<leftarrow> fibonacci_map_ops (n - 2) True s1;
          let f = a + b;
          let s3 = s2\<lparr>fibs := (fibs s2)(n \<mapsto> f)\<rparr>;
          let s4 = (if track
                    then s3\<lparr>map_annots := map_annots s3 @
                           [Value (Dict (fibs s3)) ''Found hash map implementation'' ''hash_map'']\<rparr>
                    else s3);
          Some (f, s4, Invoke n # l1 @ l2 @ [Addition n, Insertion n])
        })"

declare fibonacci_map_ops.simps [code]

fun call_seq_ops :: "int list \<Rightarrow> bool \<Rightarrow> state \<Rightarrow> (int list \<times> state \<times> prim_op list) option" where
  "call_seq_ops [] track s = Some ([], s, [])"
| "call_seq_ops (n # ns) track s = do {
     (v, s1, l1) \<leftarrow> fibonacci_map_ops n track s;
     (vs, s2, l2) \<leftarrow> call_seq_ops ns track s1;
     Some (v # vs, s2, l1 @ l2)
   }"

section \<open>Dynamic programming implementation\<close>

text \<open>
  \<^verbatim>\<open>
  def fibonacci(n, track=True):
      fibs = np.zeros(n + 1, dtype=int)
      if n > 0:
          fibs[1] = 1
      for i in range(2, n + 1):
          fibs[i] = fibs[i-1] + fibs[i-2]
      if track:
          dyn_annots.append(pybryt.Value(fibs, success_message=..., name="dyn_array"))
      return fibs[n]
  \<close>
  \<open>np.zeros\<close> raises \<open>ValueError\<close> for a negative length. For \<open>n = -1\<close> the buffer is empty
  and the final read \<open>fibs[-1]\<close> raises \<open>IndexError\<close>, after the annotation has been
  appended. Inside the loop \<open>2 \<le> i \<le> n\<close>, so every index used there is in range.
  Additions of 64-bit NumPy integers wrap around.
\<close>

datatype np_error = ValueError | IndexError

definition fill_step :: "nat \<Rightarrow> 64 word list \<Rightarrow> 64 word list" where
  "fill_step i buf = buf[i := buf ! (i - 1) + buf ! (i - 2)]"

definition fibonacci_dyn :: "int \<Rightarrow> bool \<Rightarrow> state \<Rightarrow> (np_error + int) \<times> state" where
  "fibonacci_dyn n track s =
     (if n + 1 < 0 then (Inl ValueError, s)
      else
        let buf0 = replicate (nat (n + 1)) (0 :: 64 word);
            buf1 = (if n > 0 then buf0[1 := 1] else buf0);
            buf2 = fold fill_step [2 ..< nat (n + 1)] buf1;
            s' = (if track
                  then s\<lparr>dyn_annots := dyn_annots s @
                         [Value (Array buf2) ''Found dynamic programming implementation''
                            ''dyn_array'']\<rparr>
                  else s)
        in if n < 0 then (Inl IndexError, s') else (Inr (sint (buf2 ! nat n)), s'))"

section \<open>The canonical Fibonacci sequence\<close>

text \<open>
  The specification's reference sequence: \<open>canonical(0) = 0\<close>, \<open>canonical(1) = 1\<close> and
  \<open>canonical(n) = canonical(n-1) + canonical(n-2)\<close> for \<open>n \<ge> 2\<close>.
\<close>

fun canonical :: "nat \<Rightarrow> int" where
  "canonical 0 = 0"
| "canonical (Suc 0) = 1"
| "canonical (Suc (Suc n)) = canonical (Suc n) + canonical n"

text \<open>
  A pair of consecutive values, computed in one linear pass; it is used only to evaluate
  \<open>canonical\<close> at large numerals.
\<close>

fun canonical_pair :: "nat \<Rightarrow> int \<times> int" where
  "canonical_pair 0 = (0, 1)"
| "canonical_pair (Suc n) = (case canonical_pair n of (a, b) \<Rightarrow> (b, a + b))"

text \<open>
  A cache is sound when every stored non-negative key maps to the canonical value of
  that index.
\<close>

definition cache_ok :: "(int \<rightharpoonup> int) \<Rightarrow> bool" where
  "cache_ok c \<longleftrightarrow> (\<forall>k v. c k = Some v \<longrightarrow> 0 \<le> k \<longrightarrow> v = canonical (nat k))"

text \<open>The canonical value as it is held in a 64-bit buffer cell.\<close>

definition canonical64 :: "nat \<Rightarrow> 64 word" where
  "canonical64 k = word_of_int (canonical k)"

section \<open>Properties of the hash map implementation\<close>

text \<open>One unfolding of the definition, branch by branch.\<close>

lemma fibonacci_map_base0: "fibonacci_map 0 track s = Some (0, s)"
  by (subst fibonacci_map.simps) simp

lemma fibonacci_map_base1: "fibonacci_map 1 track s = Some (1, s)"
  by (subst fibonacci_map.simps) simp

lemma fibonacci_map_hit:
  "n \<noteq> 0 \<Longrightarrow> n \<noteq> 1 \<Longrightarrow> fibs s n = Some v \<Longrightarrow> fibonacci_map n track s = Some (v, s)"
  by (subst fibonacci_map.simps) simp

lemma store_simps [simp]:
  "fibs (store n f track s) = (fibs s)(n \<mapsto> f)"
  "dyn_annots (store n f track s) = dyn_annots s"
  "map_annots (store n f False s) = map_annots s"
  "map_annots (store n f True s) = map_annots s @
     [Value (Dict ((fibs s)(n \<mapsto> f))) ''Found hash map implementation'' ''hash_map'']"
  by (simp_all add: store_def Let_def)

lemma fibonacci_map_miss:
  "n \<noteq> 0 \<Longrightarrow> n \<noteq> 1 \<Longrightarrow> fibs s n = None \<Longrightarrow>
   fibonacci_map (n - 1) True s = Some (a, s1) \<Longrightarrow>
   fibonacci_map (n - 2) True s1 = Some (b, s2) \<Longrightarrow>
   fibonacci_map n track s = Some (a + b, store n (a + b) track s2)"
  by (subst fibonacci_map.simps) (simp add: store_def Let_def)

text \<open>For a non-negative argument the recursion ends, in every state.\<close>

lemma fibonacci_map_total_nat:
  "\<exists>y. fibonacci_map (int n) track s = Some y"
proof (induction n arbitrary: track s rule: less_induct)
  case (less n)
  show ?case
  proof (cases "n < 2")
    case True
    then have "n = 0 \<or> n = 1" by arith
    then show ?thesis
      by (auto simp: fibonacci_map_base0 fibonacci_map_base1)
  next
    case False
    show ?thesis
    proof (cases "fibs s (int n)")
      case (Some v)
      with False show ?thesis by (simp add: fibonacci_map_hit)
    next
      case None
      from False less.IH [of "n - 1" True s]
      obtain a s1 where c1: "fibonacci_map (int n - 1) True s = Some (a, s1)"
        by (auto simp: of_nat_diff)
      from False less.IH [of "n - 2" True s1]
      obtain b s2 where c2: "fibonacci_map (int n - 2) True s1 = Some (b, s2)"
        by (auto simp: of_nat_diff)
      from False None c1 c2 show ?thesis
        by (simp add: fibonacci_map_miss)
    qed
  qed
qed

lemma fibonacci_map_total: "0 \<le> n \<Longrightarrow> \<exists>v s'. fibonacci_map n track s = Some (v, s')"
  using fibonacci_map_total_nat [of "nat n" track s] by auto

text \<open>
  Facts about every call that returns, whatever its argument: they follow the recursion
  of the function itself. The cache only grows, \<open>dyn_annots\<close> is untouched, \<open>map_annots\<close>
  is only appended to, and outside the base cases the returned value is stored under \<open>n\<close>.
\<close>

lemma fibonacci_map_frame_aux:
  "fibonacci_map n track s = Some y \<Longrightarrow>
     fibs s \<subseteq>\<^sub>m fibs (snd y) \<and> dyn_annots (snd y) = dyn_annots s
     \<and> prefix (map_annots s) (map_annots (snd y))
     \<and> (n \<noteq> 0 \<longrightarrow> n \<noteq> 1 \<longrightarrow> fibs (snd y) n = Some (fst y))"
proof (induction n track s y rule: fibonacci_map.raw_induct [rotated 1, consumes 1, case_names step])
  case (step f n track s y)
  show ?case
  proof (cases "n = 0 \<or> n = 1 \<or> fibs s n \<noteq> None")
    case True
    with step(2) show ?thesis by (auto split: if_splits)
  next
    case False
    with step(2) obtain a s1 b s2 where
      c1: "f (n - 1) True s = Some (a, s1)" and
      c2: "f (n - 2) True s1 = Some (b, s2)" and
      y: "y = (a + b, store n (a + b) track s2)"
      by (auto simp: store_def Let_def split: bind_splits)
    note h1 = step(1) [OF c1] and h2 = step(1) [OF c2]
    have le: "fibs s \<subseteq>\<^sub>m fibs s2"
      using h1 h2 by (auto intro: map_le_trans)
    have "fibs s n = None" using False by simp
    with le have "fibs s \<subseteq>\<^sub>m fibs (snd y)"
      by (auto simp: y map_le_def dom_def)
    moreover have "dyn_annots (snd y) = dyn_annots s"
      using h1 h2 by (simp add: y)
    moreover have "prefix (map_annots s2) (map_annots (snd y))"
      by (cases track) (simp_all add: y)
    then have "prefix (map_annots s) (map_annots (snd y))"
      using h1 h2 by (auto intro: prefix_order.trans)
    moreover have "fibs (snd y) n = Some (fst y)"
      by (simp add: y)
    ultimately show ?thesis by simp
  qed
qed


lemma fibonacci_map_frame:
  assumes "fibonacci_map n track s = Some (v, s')"
  shows "fibs s \<subseteq>\<^sub>m fibs s'" and "dyn_annots s' = dyn_annots s"
    and "prefix (map_annots s) (map_annots s')"
    and "n \<noteq> 0 \<Longrightarrow> n \<noteq> 1 \<Longrightarrow> fibs s' n = Some v"
  using fibonacci_map_frame_aux [OF assms] by simp_all

text \<open>A sound cache stays sound, and on a sound cache the result is the canonical value.\<close>

lemma canonical_rec:
  "2 \<le> n \<Longrightarrow> canonical (nat n) = canonical (nat (n - 1)) + canonical (nat (n - 2))"
proof -
  assume n: "2 \<le> n"
  define k where "k = nat (n - 2)"
  from n have "nat n = Suc (Suc k)" and "nat (n - 1) = Suc k"
    by (simp_all add: k_def)
  then show ?thesis by (simp add: k_def)
qed

lemma cache_ok_store:
  "cache_ok c \<Longrightarrow> (0 \<le> n \<Longrightarrow> f = canonical (nat n)) \<Longrightarrow> cache_ok (c(n \<mapsto> f))"
  by (auto simp: cache_ok_def)

lemma fibonacci_map_sound_aux:
  assumes "fibonacci_map n track s = Some y"
  shows "cache_ok (fibs s) \<longrightarrow> cache_ok (fibs (snd y)) \<and> (0 \<le> n \<longrightarrow> fst y = canonical (nat n))"
  using assms
proof (induction n track s y rule: fibonacci_map.raw_induct [rotated 1, consumes 1, case_names step])
  case (step f n track s y)
  show ?case
  proof (cases "n = 0 \<or> n = 1 \<or> fibs s n \<noteq> None")
    case True
    with step(2) show ?thesis by (auto simp: cache_ok_def split: if_splits)
  next
    case False
    with step(2) obtain a s1 b s2 where
      c1: "f (n - 1) True s = Some (a, s1)" and
      c2: "f (n - 2) True s1 = Some (b, s2)" and
      y: "y = (a + b, store n (a + b) track s2)"
      by (auto simp: store_def Let_def split: bind_splits)
    note h1 = step(1) [OF c1] and h2 = step(1) [OF c2]
    show ?thesis
    proof
      assume ok: "cache_ok (fibs s)"
      with h1 have ok1: "cache_ok (fibs s1)" and a: "1 \<le> n \<Longrightarrow> a = canonical (nat (n - 1))"
        by simp_all
      with h2 have ok2: "cache_ok (fibs s2)" and b: "2 \<le> n \<Longrightarrow> b = canonical (nat (n - 2))"
        by simp_all
      have v: "0 \<le> n \<Longrightarrow> a + b = canonical (nat n)"
        using False a b canonical_rec [of n] by (cases "2 \<le> n") auto
      have "fibs (snd y) = (fibs s2)(n \<mapsto> a + b)"
        by (simp add: y)
      with ok2 v have "cache_ok (fibs (snd y))"
        by (simp add: cache_ok_store)
      with v show "cache_ok (fibs (snd y)) \<and> (0 \<le> n \<longrightarrow> fst y = canonical (nat n))"
        by (simp add: y)
    qed
  qed
qed

lemma fibonacci_map_sound:
  assumes "fibonacci_map n track s = Some (v, s')" and "cache_ok (fibs s)"
  shows "cache_ok (fibs s')" and "0 \<le> n \<Longrightarrow> v = canonical (nat n)"
  using fibonacci_map_sound_aux [OF assms(1)] assms(2) by simp_all

text \<open>Which keys a call with a non-negative argument can add.\<close>

lemma fibonacci_map_dom_aux:
  assumes "fibonacci_map n track s = Some y"
  shows "0 \<le> n \<longrightarrow> dom (fibs (snd y)) \<subseteq> dom (fibs s) \<union> {2..n}"
  using assms
proof (induction n track s y rule: fibonacci_map.raw_induct [rotated 1, consumes 1, case_names step])
  case (step f n track s y)
  show ?case
  proof (cases "n = 0 \<or> n = 1 \<or> fibs s n \<noteq> None")
    case True
    with step(2) show ?thesis by (auto split: if_splits)
  next
    case False
    with step(2) obtain a s1 b s2 where
      c1: "f (n - 1) True s = Some (a, s1)" and
      c2: "f (n - 2) True s1 = Some (b, s2)" and
      y: "y = (a + b, store n (a + b) track s2)"
      by (auto simp: store_def Let_def split: bind_splits)
    note h1 = step(1) [OF c1] and h2 = step(1) [OF c2]
    show ?thesis
    proof
      assume "0 \<le> n"
      with False have n: "2 \<le> n" by simp
      with h1 have d1: "dom (fibs s1) \<subseteq> dom (fibs s) \<union> {2..n - 1}" by simp
      from n h2 have d2: "dom (fibs s2) \<subseteq> dom (fibs s1) \<union> {2..n - 2}" by simp
      have sub: "{2..n - 1} \<subseteq> {2..n}" "{2..n - 2} \<subseteq> {2..n}"
        by auto
      have "dom (fibs s2) \<subseteq> dom (fibs s) \<union> {2..n}"
        using d1 d2 sub by blast
      moreover have "dom (fibs (snd y)) = insert n (dom (fibs s2))"
        by (simp add: y)
      ultimately show "dom (fibs (snd y)) \<subseteq> dom (fibs s) \<union> {2..n}"
        using n by simp
    qed
  qed
qed

lemma fibonacci_map_dom_exact_aux:
  assumes "fibonacci_map n track s = Some y"
  shows "0 \<le> n \<longrightarrow> (\<exists>m. dom (fibs s) = {2..m}) \<longrightarrow> dom (fibs (snd y)) = dom (fibs s) \<union> {2..n}"
  using assms
proof (induction n track s y rule: fibonacci_map.raw_induct [rotated 1, consumes 1, case_names step])
  case (step f n track s y)
  show ?case
  proof (cases "n = 0 \<or> n = 1 \<or> fibs s n \<noteq> None")
    case True
    with step(2) have y: "snd y = s" by (auto split: if_splits)
    show ?thesis
    proof (intro impI)
      assume "0 \<le> n" and "\<exists>m. dom (fibs s) = {2..m}"
      then obtain m where m: "dom (fibs s) = {2..m}" by blast
      have "{2..n} \<subseteq> {2..m}"
      proof (cases "n = 0 \<or> n = 1")
        case True
        then show ?thesis by auto
      next
        case False
        with True have "n \<in> dom (fibs s)" by (auto simp: dom_def)
        with m show ?thesis by auto
      qed
      with m y show "dom (fibs (snd y)) = dom (fibs s) \<union> {2..n}" by auto
    qed
  next
    case False
    with step(2) obtain a s1 b s2 where
      c1: "f (n - 1) True s = Some (a, s1)" and
      c2: "f (n - 2) True s1 = Some (b, s2)" and
      y: "y = (a + b, store n (a + b) track s2)"
      by (auto simp: store_def Let_def split: bind_splits)
    note h1 = step(1) [OF c1] and h2 = step(1) [OF c2]
    show ?thesis
    proof (intro impI)
      assume "0 \<le> n" and "\<exists>m. dom (fibs s) = {2..m}"
      then obtain m where m: "dom (fibs s) = {2..m}" by blast
      from \<open>0 \<le> n\<close> False have n: "2 \<le> n" by simp
      from False have "n \<notin> dom (fibs s)" by (simp add: domIff)
      with m n have mn: "m < n" by simp
      from h1 n m have d1: "dom (fibs s1) = {2..m} \<union> {2..n - 1}" by auto
      with mn have d1': "dom (fibs s1) = {2..n - 1}" by auto
      with h2 n have d2: "dom (fibs s2) = {2..n - 1} \<union> {2..n - 2}" by auto
      have "dom (fibs (snd y)) = insert n (dom (fibs s2))"
        by (simp add: y)
      with d2 m mn n show "dom (fibs (snd y)) = dom (fibs s) \<union> {2..n}"
        by auto
    qed
  qed
qed

text \<open>In a reachable state the keys are an interval \<open>2..m\<close> and the cache is sound.\<close>

lemma reachable_shape:
  "reachable s \<Longrightarrow> (\<exists>m. dom (fibs s) = {2..m}) \<and> cache_ok (fibs s)"
proof (induction rule: reachable.induct)
  case reachable_init
  have "dom (fibs init_state) = {2..(1::int)}"
    by (simp add: init_state_def)
  then have "\<exists>m. dom (fibs init_state) = {2..m}" ..
  moreover have "cache_ok (fibs init_state)"
    by (simp add: init_state_def cache_ok_def)
  ultimately show ?case ..
next
  case (reachable_call s n track v s')
  then obtain m where m: "dom (fibs s) = {2..m}" by blast
  from fibonacci_map_dom_exact_aux [OF reachable_call(3)] reachable_call(2) m
  have "dom (fibs s') = {2..m} \<union> {2..n}" by auto
  also have "\<dots> = {2..max m n}" by auto
  finally have "\<exists>m. dom (fibs s') = {2..m}" by blast
  moreover have "cache_ok (fibs s')"
    using fibonacci_map_sound(1) [OF reachable_call(3)] reachable_call.IH by simp
  ultimately show ?case by simp
qed

text \<open>
  Claim C1. For every integer \<open>n \<ge> 0\<close> and every state, the hash map implementation
  returns. For \<open>n = 0\<close> and \<open>n = 1\<close> it returns 0 and 1 and leaves the state as it is; for
  \<open>n \<ge> 2\<close> with \<open>n\<close> a key of the cache it returns the stored value and leaves the state
  as it is; for \<open>n \<ge> 2\<close> with \<open>n\<close> not a key it runs the calls for \<open>n - 1\<close> and then
  \<open>n - 2\<close>, adds their results, stores the sum under key \<open>n\<close> and returns it. Whenever
  the values already in the cache are the canonical ones, the returned value is the
  \<open>n\<close>-th Fibonacci number. The ten calls for \<open>n = 0..9\<close> from the initial state return
  \<open>0 1 1 2 3 5 8 13 21 34\<close>.
\<close>
theorem fibonacci_map_correct:
  assumes "0 \<le> n"
  shows "\<exists>v s'. fibonacci_map n track s = Some (v, s')
      \<and> (cache_ok (fibs s) \<longrightarrow> v = canonical (nat n))
      \<and> (n = 0 \<longrightarrow> v = 0 \<and> s' = s)
      \<and> (n = 1 \<longrightarrow> v = 1 \<and> s' = s)
      \<and> (2 \<le> n \<longrightarrow> (\<forall>c. fibs s n = Some c \<longrightarrow> v = c \<and> s' = s))
      \<and> (2 \<le> n \<longrightarrow> fibs s n = None \<longrightarrow>
            (\<exists>a s1 b s2. fibonacci_map (n - 1) True s = Some (a, s1)
               \<and> fibonacci_map (n - 2) True s1 = Some (b, s2)
               \<and> v = a + b \<and> fibs s' = (fibs s2)(n \<mapsto> v)
               \<and> (cache_ok (fibs s) \<longrightarrow>
                    a = canonical (nat (n - 1)) \<and> b = canonical (nat (n - 2)))))
      \<and> map_option fst (call_seq [0..9] True init_state) = Some [0, 1, 1, 2, 3, 5, 8, 13, 21, 34]"
proof -
  from assms obtain v s' where r: "fibonacci_map n track s = Some (v, s')"
    using fibonacci_map_total by blast
  have sound: "cache_ok (fibs s) \<longrightarrow> v = canonical (nat n)"
    using fibonacci_map_sound(2) [OF r] assms by simp
  have b0: "n = 0 \<longrightarrow> v = 0 \<and> s' = s"
    using r by (auto simp: fibonacci_map_base0)
  have b1: "n = 1 \<longrightarrow> v = 1 \<and> s' = s"
    using r by (auto simp: fibonacci_map_base1)
  have hit: "2 \<le> n \<longrightarrow> (\<forall>c. fibs s n = Some c \<longrightarrow> v = c \<and> s' = s)"
    using r by (auto simp: fibonacci_map_hit)
  have miss: "2 \<le> n \<longrightarrow> fibs s n = None \<longrightarrow>
            (\<exists>a s1 b s2. fibonacci_map (n - 1) True s = Some (a, s1)
               \<and> fibonacci_map (n - 2) True s1 = Some (b, s2)
               \<and> v = a + b \<and> fibs s' = (fibs s2)(n \<mapsto> v)
               \<and> (cache_ok (fibs s) \<longrightarrow>
                    a = canonical (nat (n - 1)) \<and> b = canonical (nat (n - 2))))"
  proof (intro impI)
    assume n: "2 \<le> n" and none: "fibs s n = None"
    from n obtain a s1 where c1: "fibonacci_map (n - 1) True s = Some (a, s1)"
      using fibonacci_map_total [of "n - 1" True s] by auto
    from n obtain b s2 where c2: "fibonacci_map (n - 2) True s1 = Some (b, s2)"
      using fibonacci_map_total [of "n - 2" True s1] by auto
    from n none c1 c2 have "fibonacci_map n track s = Some (a + b, store n (a + b) track s2)"
      by (simp add: fibonacci_map_miss)
    then have "Some (v, s') = Some (a + b, store n (a + b) track s2)"
      by (simp only: r)
    then have v: "v = a + b" and s': "s' = store n (a + b) track s2" by simp_all
    have "cache_ok (fibs s) \<longrightarrow> a = canonical (nat (n - 1)) \<and> b = canonical (nat (n - 2))"
      using fibonacci_map_sound [OF c1] fibonacci_map_sound [OF c2] n by simp
    with c1 c2 v s' show "\<exists>a s1 b s2. fibonacci_map (n - 1) True s = Some (a, s1)
               \<and> fibonacci_map (n - 2) True s1 = Some (b, s2)
               \<and> v = a + b \<and> fibs s' = (fibs s2)(n \<mapsto> v)
               \<and> (cache_ok (fibs s) \<longrightarrow>
                    a = canonical (nat (n - 1)) \<and> b = canonical (nat (n - 2)))"
      by auto
  qed
  have scen: "map_option fst (call_seq [0..9] True init_state) = Some [0, 1, 1, 2, 3, 5, 8, 13, 21, 34]"
    by code_simp
  show ?thesis
    by (rule exI [of _ v], rule exI [of _ s'], intro conjI)
       (rule r sound b0 b1 hit miss scen)+
qed

theorem fibonacci_map_correct_witness:
  "(0::int) \<le> 5 \<and> cache_ok (fibs init_state) \<and> fibs init_state 5 = None
   \<and> map_option fst (fibonacci_map 5 True init_state) = Some 5
   \<and> canonical (nat 5) = 5"
proof -
  have ok: "cache_ok (fibs init_state)" by (simp add: cache_ok_def init_state_def)
  have c: "canonical (nat 5) = 5" by code_simp
  from fibonacci_map_correct [of 5 True init_state] ok c
  show ?thesis by (auto simp: init_state_def)
qed

text \<open>
  Claim C4. For every \<open>n \<ge> 0\<close> and every state (whatever the cache holds), the call
  returns, and a second call with the same \<open>n\<close> on the state left by the first returns
  the same value and leaves that state exactly as it is: no cached value changes, and
  nothing else does either.
\<close>
theorem fibonacci_map_idempotent:
  assumes "0 \<le> n"
  shows "\<exists>v s1. fibonacci_map n track1 s = Some (v, s1)
           \<and> fibonacci_map n track2 s1 = Some (v, s1)"
proof -
  from assms obtain v s1 where r: "fibonacci_map n track1 s = Some (v, s1)"
    using fibonacci_map_total by blast
  have "fibonacci_map n track2 s1 = Some (v, s1)"
  proof (cases "n = 0 \<or> n = 1")
    case True
    with r show ?thesis by (auto simp: fibonacci_map_base0 fibonacci_map_base1)
  next
    case False
    with fibonacci_map_frame(4) [OF r] have "fibs s1 n = Some v" by simp
    with False show ?thesis by (simp add: fibonacci_map_hit)
  qed
  with r show ?thesis by blast
qed

theorem fibonacci_map_idempotent_witness:
  "(0::int) \<le> 4 \<and> (\<exists>v s1. fibonacci_map 4 True init_state = Some (v, s1)
           \<and> fibonacci_map 4 False s1 = Some (v, s1) \<and> v = 3)"
proof -
  have "map_option fst (fibonacci_map 4 True init_state) = Some 3" by code_simp
  with fibonacci_map_idempotent [of 4 True init_state False] show ?thesis by auto
qed

text \<open>
  Claim C5. In every state a session can reach and for every \<open>n \<ge> 2\<close>, the call returns
  and the keys of the cache afterwards are exactly \<open>2..n\<close> together with the keys it had
  before; every key is mapped to the canonical Fibonacci value of its index. Moreover no
  call that returns, from any state and for any argument, removes a key or changes the
  value stored under an existing key.
\<close>
theorem cache_growth:
  assumes "reachable s" and "2 \<le> n"
  shows "\<exists>v s'. fibonacci_map n track s = Some (v, s')
           \<and> dom (fibs s') = {2..n} \<union> dom (fibs s)
           \<and> (\<forall>k\<in>dom (fibs s'). fibs s' k = Some (canonical (nat k)))
           \<and> (\<forall>n0 track0 s0 v0 s0'. fibonacci_map n0 track0 s0 = Some (v0, s0') \<longrightarrow>
                 fibs s0 \<subseteq>\<^sub>m fibs s0')"
proof -
  from assms obtain v s' where r: "fibonacci_map n track s = Some (v, s')"
    using fibonacci_map_total [of n track s] by auto
  from reachable_shape [OF assms(1)] obtain m
    where m: "dom (fibs s) = {2..m}" and ok: "cache_ok (fibs s)" by blast
  have d: "dom (fibs s') = {2..n} \<union> dom (fibs s)"
    using fibonacci_map_dom_exact_aux [OF r] assms(2) m by auto
  have ok': "cache_ok (fibs s')"
    using fibonacci_map_sound(1) [OF r ok] .
  have vals: "\<forall>k\<in>dom (fibs s'). fibs s' k = Some (canonical (nat k))"
  proof
    fix k assume k: "k \<in> dom (fibs s')"
    with d m have "2 \<le> k" by auto
    with k ok' show "fibs s' k = Some (canonical (nat k))"
      by (auto simp: cache_ok_def)
  qed
  have "\<forall>n0 track0 s0 v0 s0'. fibonacci_map n0 track0 s0 = Some (v0, s0') \<longrightarrow>
                 fibs s0 \<subseteq>\<^sub>m fibs s0'"
    using fibonacci_map_frame(1) by blast
  with r d vals show ?thesis by blast
qed

theorem cache_growth_witness:
  "reachable init_state \<and> (2::int) \<le> 4
   \<and> (\<exists>v s'. fibonacci_map 4 True init_state = Some (v, s') \<and> dom (fibs s') = {2..4}
         \<and> fibs s' 4 = Some 3)"
proof -
  have c: "canonical (nat 4) = 3" by code_simp
  have d: "dom (fibs init_state) = {}" by (simp add: init_state_def)
  from cache_growth [OF reachable_init, of 4 True] c d
  show ?thesis by (auto simp: reachable_init)
qed



text \<open>
  Claim C10. For every \<open>n \<ge> 0\<close> and any two states whose caches are sound (each stored
  key maps to the canonical value of its index; the empty cache is one of them), both
  runs return, and they return the same value.
\<close>
theorem fibonacci_map_cache_independent:
  assumes "0 \<le> n" and "cache_ok (fibs s1)" and "cache_ok (fibs s2)"
  shows "\<exists>v s1' s2'. fibonacci_map n track1 s1 = Some (v, s1')
           \<and> fibonacci_map n track2 s2 = Some (v, s2')"
proof -
  from assms(1) obtain v1 s1' where r1: "fibonacci_map n track1 s1 = Some (v1, s1')"
    using fibonacci_map_total by blast
  from assms(1) obtain v2 s2' where r2: "fibonacci_map n track2 s2 = Some (v2, s2')"
    using fibonacci_map_total by blast
  have "v1 = canonical (nat n)" "v2 = canonical (nat n)"
    using fibonacci_map_sound(2) [OF r1 assms(2,1)] fibonacci_map_sound(2) [OF r2 assms(3,1)]
    by simp_all
  with r1 r2 show ?thesis by simp
qed

theorem fibonacci_map_cache_independent_witness:
  "(0::int) \<le> 4 \<and> cache_ok (fibs init_state)
   \<and> cache_ok (fibs (init_state\<lparr>fibs := [3 \<mapsto> 2]\<rparr>))
   \<and> (\<exists>v s1' s2'. fibonacci_map 4 True init_state = Some (v, s1')
           \<and> fibonacci_map 4 True (init_state\<lparr>fibs := [3 \<mapsto> 2]\<rparr>) = Some (v, s2'))"
proof -
  have c: "canonical (nat 3) = 2" by code_simp
  have ok1: "cache_ok (fibs init_state)" by (simp add: cache_ok_def init_state_def)
  have ok2: "cache_ok (fibs (init_state\<lparr>fibs := [3 \<mapsto> 2]\<rparr>))"
    using c by (simp add: cache_ok_def)
  from fibonacci_map_cache_independent [of 4, OF _ ok1 ok2, of True True] ok1 ok2
  show ?thesis by simp
qed

section \<open>Properties of the dynamic programming implementation\<close>

text \<open>
  The loop invariant: after the iterations for \<open>2, ..., j - 1\<close> the first \<open>j\<close> cells hold
  the canonical values, as 64-bit words.
\<close>

lemma canonical64_rec: "2 \<le> j \<Longrightarrow> canonical64 j = canonical64 (j - 1) + canonical64 (j - 2)"
proof -
  assume "2 \<le> j"
  then obtain i where j: "j = Suc (Suc i)" by (metis add_2_eq_Suc le_Suc_ex)
  show ?thesis by (simp add: j canonical64_def)
qed

lemma canonical64_0_1: "canonical64 0 = 0" "canonical64 (Suc 0) = 1"
  by (simp_all add: canonical64_def)

lemma fill_invariant:
  assumes len: "length buf = N" and b0: "buf ! 0 = canonical64 0" and b1: "buf ! 1 = canonical64 1"
  shows "2 \<le> j \<Longrightarrow> j \<le> N \<Longrightarrow>
           length (fold fill_step [2..<j] buf) = N
           \<and> (\<forall>k<j. fold fill_step [2..<j] buf ! k = canonical64 k)"
proof (induction j)
  case 0
  then show ?case by simp
next
  case (Suc j)
  show ?case
  proof (cases "j < 2")
    case True
    with Suc.prems have j: "j = 1" by simp
    have "\<And>k. k < Suc (Suc 0) \<Longrightarrow> buf ! k = canonical64 k"
      using b0 b1 less_Suc_eq by auto
    with len show ?thesis by (simp add: j numeral_2_eq_2)
  next
    case False
    then have j2: "2 \<le> j" by simp
    define b where "b = fold fill_step [2..<j] buf"
    from Suc j2 have IH: "length b = N" "\<And>k. k < j \<Longrightarrow> b ! k = canonical64 k"
      by (simp_all add: b_def)
    have step: "fold fill_step [2..<Suc j] buf = b[j := b ! (j - 1) + b ! (j - 2)]"
      using j2 by (simp add: b_def fill_step_def)
    have new: "b ! (j - 1) + b ! (j - 2) = canonical64 j"
      using IH(2) [of "j - 1"] IH(2) [of "j - 2"] j2 canonical64_rec [of j] by simp
    have "\<forall>k<Suc j. (b[j := canonical64 j]) ! k = canonical64 k"
    proof (intro allI impI)
      fix k assume "k < Suc j"
      then show "(b[j := canonical64 j]) ! k = canonical64 k"
        using IH Suc.prems(2) by (cases "k = j") simp_all
    qed
    with IH(1) show ?thesis unfolding step new by simp
  qed
qed

lemma fill_result:
  assumes "0 \<le> n"
  shows "fold fill_step [2 ..< nat (n + 1)]
           (if n > 0 then (replicate (nat (n + 1)) 0)[1 := 1] else replicate (nat (n + 1)) 0)
         = map canonical64 [0 ..< nat (n + 1)]"
    (is "?buf2 = _")
proof (cases "n = 0")
  case True
  then show ?thesis by (simp add: canonical64_0_1)
next
  case False
  with assms have n: "0 < n" by simp
  define N where "N = nat (n + 1)"
  define buf1 where "buf1 = (replicate N (0 :: 64 word))[1 := 1]"
  from n have N: "2 \<le> N" by (simp add: N_def)
  have "length buf1 = N" by (simp add: buf1_def)
  moreover have "buf1 ! 0 = canonical64 0" using N by (simp add: buf1_def canonical64_0_1)
  moreover have "buf1 ! 1 = canonical64 1" using N by (simp add: buf1_def canonical64_0_1)
  ultimately have inv: "length (fold fill_step [2..<N] buf1) = N"
      "\<And>k. k < N \<Longrightarrow> fold fill_step [2..<N] buf1 ! k = canonical64 k"
    using fill_invariant [of buf1 N N] N by simp_all
  have "fold fill_step [2..<N] buf1 = map canonical64 [0..<N]"
    by (rule nth_equalityI) (simp_all add: inv)
  with n show ?thesis by (simp add: N_def buf1_def)
qed

lemma fibonacci_dyn_nonneg:
  assumes "0 \<le> n"
  shows "fibonacci_dyn n track s =
           (Inr (sint (canonical64 (nat n))),
            if track
            then s\<lparr>dyn_annots := dyn_annots s @
                   [Value (Array (map canonical64 [0 ..< nat (n + 1)]))
                      ''Found dynamic programming implementation'' ''dyn_array'']\<rparr>
            else s)"
proof -
  have "map canonical64 [0 ..< nat (n + 1)] ! nat n = canonical64 (nat n)"
    using assms by (simp del: upt_Suc)
  with assms show ?thesis
    unfolding fibonacci_dyn_def Let_def fill_result [OF assms] by simp
qed

text \<open>The canonical sequence is non-negative and monotone; \<open>2^63\<close> lies between its 92nd and 93rd value.\<close>

lemma canonical_pair_eq: "canonical_pair n = (canonical n, canonical (Suc n))"
  by (induction n) simp_all

lemma canonical_via_pair: "canonical n = fst (canonical_pair n)"
  by (simp add: canonical_pair_eq)

lemma canonical_nonneg: "0 \<le> canonical n"
  by (induction n rule: canonical.induct) simp_all

lemma canonical_Suc_mono: "canonical n \<le> canonical (Suc n)"
  using canonical_nonneg [of "n - 1"] by (cases n) simp_all

lemma canonical_mono: "m \<le> n \<Longrightarrow> canonical m \<le> canonical n"
  by (induction n) (auto simp: le_Suc_eq intro: order_trans [OF _ canonical_Suc_mono])

lemma canonical_92: "canonical 92 = 7540113804746346429"
  unfolding canonical_via_pair by code_simp

lemma canonical_93: "canonical 93 = 12200160415121876738"
  unfolding canonical_via_pair by code_simp

lemma sint_canonical64_exact: "k \<le> 92 \<Longrightarrow> sint (canonical64 k) = canonical k"
proof -
  assume "k \<le> 92"
  then have "canonical k \<le> 7540113804746346429"
    using canonical_mono [of k 92] by (simp add: canonical_92)
  with canonical_nonneg [of k] show ?thesis
    unfolding canonical64_def by (simp add: signed_of_int signed_take_bit_int_eq_self)
qed

lemma sint_canonical64_overflow: "93 \<le> k \<Longrightarrow> sint (canonical64 k) \<noteq> canonical k"
proof -
  assume "93 \<le> k"
  then have "12200160415121876738 \<le> canonical k"
    using canonical_mono [of 93 k] by (simp add: canonical_93)
  moreover have "sint (canonical64 k) < 2 ^ 63"
    using sint_lt [of "canonical64 k"] by simp
  ultimately show ?thesis by simp
qed

lemma sint_canonical64_mod: "sint (canonical64 k) mod 2 ^ 64 = canonical k mod 2 ^ 64"
proof -
  have "word_of_int (sint (canonical64 k)) = (word_of_int (canonical k) :: 64 word)"
    by (simp add: canonical64_def)
  from this [unfolded word_of_int_eq_iff] show ?thesis
    by (simp add: take_bit_eq_mod)
qed

lemma fibonacci_dyn_exact:
  assumes "0 \<le> n" and "n \<le> 92"
  shows "fst (fibonacci_dyn n track s) = Inr (canonical (nat n))"
  using assms by (simp add: fibonacci_dyn_nonneg sint_canonical64_exact)

text \<open>
  Claim C2. The dynamic programming implementation returns the Fibonacci number for the
  spec's concrete cases (\<open>iterative(10) = 55\<close>, \<open>iterative(0) = 0\<close>, \<open>iterative(1) = 1\<close>),
  but not for every \<open>n \<ge> 0\<close>: at \<open>n = 93\<close> the 64-bit buffer wraps around and the function
  returns \<open>-6246583658587674878\<close>, while the 93rd Fibonacci number is
  \<open>12200160415121876738\<close>.
\<close>
theorem fibonacci_dyn_overflow_at_93:
  "fst (fibonacci_dyn 93 track s) = Inr (- 6246583658587674878)
   \<and> canonical 93 = 12200160415121876738
   \<and> fst (fibonacci_dyn 10 track s) = Inr 55
   \<and> fst (fibonacci_dyn 0 track s) = Inr 0
   \<and> fst (fibonacci_dyn 1 track s) = Inr 1"
proof -
  have "fst (fibonacci_dyn 93 track s) = Inr (- 6246583658587674878)"
    by (simp add: fibonacci_dyn_nonneg canonical64_def canonical_93)
  moreover have "canonical 10 = 55" by code_simp
  then have "fst (fibonacci_dyn 10 track s) = Inr 55"
    using fibonacci_dyn_exact [of 10 track s] by simp
  moreover have "fst (fibonacci_dyn 0 track s) = Inr 0"
    using fibonacci_dyn_exact [of 0 track s] by simp
  moreover have "fst (fibonacci_dyn 1 track s) = Inr 1"
    using fibonacci_dyn_exact [of 1 track s] by simp
  ultimately show ?thesis by (simp only: canonical_93 simp_thms)
qed

text \<open>
  Claim C3. For every \<open>n\<close> with \<open>0 \<le> n < 30\<close>, the hash map implementation (run on any
  state whose cache is sound) and the dynamic programming implementation (run on any
  state) both return the canonical Fibonacci value of \<open>n\<close>, hence equal results.
\<close>
theorem implementations_agree:
  assumes "0 \<le> n" and "n < 30" and "cache_ok (fibs s)"
  shows "\<exists>s1 s2. fibonacci_map n track s = Some (canonical (nat n), s1)
           \<and> fibonacci_dyn n track' s' = (Inr (canonical (nat n)), s2)"
proof -
  from assms(1) obtain v s1 where r: "fibonacci_map n track s = Some (v, s1)"
    using fibonacci_map_total by blast
  with assms have "v = canonical (nat n)"
    using fibonacci_map_sound(2) by blast
  moreover from assms have "fst (fibonacci_dyn n track' s') = Inr (canonical (nat n))"
    by (simp add: fibonacci_dyn_exact)
  ultimately show ?thesis
    using r by (metis prod.collapse)
qed

theorem implementations_agree_witness:
  "(0::int) \<le> 29 \<and> (29::int) < 30 \<and> cache_ok (fibs init_state)
   \<and> (\<exists>s1 s2. fibonacci_map 29 False init_state = Some (514229, s1)
           \<and> fibonacci_dyn 29 False init_state = (Inr 514229, s2))"
proof -
  have ok: "cache_ok (fibs init_state)" by (simp add: cache_ok_def init_state_def)
  have c: "canonical (nat 29) = 514229"
    unfolding canonical_via_pair by code_simp
  from implementations_agree [of 29 init_state False False init_state, OF _ _ ok] ok c
  show ?thesis by simp
qed

text \<open>
  Claim C6, as stated: no call of the dynamic programming implementation modifies any
  state, whatever the track flag. With \<open>track = True\<close> the call for \<open>n = 0\<close> on the initial
  state leaves a different state behind: the annotation list has grown.
\<close>
theorem fibonacci_dyn_track_modifies_state:
  "snd (fibonacci_dyn 0 True init_state) \<noteq> init_state"
  by (simp add: fibonacci_dyn_def init_state_def)

text \<open>
  Claim C6, amended. For every \<open>n \<ge> 0\<close> the returned value depends neither on the state
  the call starts from nor on the track flag. With \<open>track = False\<close> the call leaves the
  state exactly as it was. With \<open>track = True\<close> the only change is one annotation appended
  to \<open>dyn_annots\<close>. That annotation holds the buffer of this call as it is after the fill
  loop: it has length \<open>n + 1\<close>, its cell \<open>k\<close> is the canonical value of \<open>k\<close> as a 64-bit
  word, and the returned value is its cell \<open>n\<close>.
\<close>
theorem fibonacci_dyn_frame:
  assumes "0 \<le> n"
  shows "fst (fibonacci_dyn n track s) = fst (fibonacci_dyn n track' s')
       \<and> snd (fibonacci_dyn n False s) = s
       \<and> (\<exists>buf. buf = fold fill_step [2 ..< nat (n + 1)]
                         (if n > 0 then (replicate (nat (n + 1)) 0)[1 := 1]
                          else replicate (nat (n + 1)) 0)
            \<and> buf = map canonical64 [0 ..< nat (n + 1)]
            \<and> length buf = nat n + 1
            \<and> fst (fibonacci_dyn n track s) = Inr (sint (buf ! nat n))
            \<and> snd (fibonacci_dyn n True s) =
                s\<lparr>dyn_annots := dyn_annots s @
                     [Value (Array buf) ''Found dynamic programming implementation''
                        ''dyn_array'']\<rparr>)"
proof -
  define buf where "buf = map canonical64 [0 ..< nat (n + 1)]"
  have val: "fst (fibonacci_dyn n track s) = fst (fibonacci_dyn n track' s')"
    using assms by (simp add: fibonacci_dyn_nonneg)
  have off: "snd (fibonacci_dyn n False s) = s"
    using assms by (simp add: fibonacci_dyn_nonneg)
  have filled: "buf = fold fill_step [2 ..< nat (n + 1)]
                         (if n > 0 then (replicate (nat (n + 1)) 0)[1 := 1]
                          else replicate (nat (n + 1)) 0)"
    unfolding buf_def by (rule fill_result [OF assms, symmetric])
  have len: "length buf = nat n + 1"
    using assms by (simp add: buf_def nat_add_distrib)
  have "buf ! nat n = canonical64 (nat n)"
    using assms unfolding buf_def by (simp del: upt_Suc)
  then have res: "fst (fibonacci_dyn n track s) = Inr (sint (buf ! nat n))"
    using assms by (simp add: fibonacci_dyn_nonneg)
  have on: "snd (fibonacci_dyn n True s) =
                s\<lparr>dyn_annots := dyn_annots s @
                     [Value (Array buf) ''Found dynamic programming implementation''
                        ''dyn_array'']\<rparr>"
    using assms unfolding buf_def by (simp add: fibonacci_dyn_nonneg del: upt_Suc)
  have ex: "\<exists>buf. buf = fold fill_step [2 ..< nat (n + 1)]
                         (if n > 0 then (replicate (nat (n + 1)) 0)[1 := 1]
                          else replicate (nat (n + 1)) 0)
            \<and> buf = map canonical64 [0 ..< nat (n + 1)]
            \<and> length buf = nat n + 1
            \<and> fst (fibonacci_dyn n track s) = Inr (sint (buf ! nat n))
            \<and> snd (fibonacci_dyn n True s) =
                s\<lparr>dyn_annots := dyn_annots s @
                     [Value (Array buf) ''Found dynamic programming implementation''
                        ''dyn_array'']\<rparr>"
    by (rule exI [of _ buf], intro conjI) (rule filled buf_def len res on)+
  from val off ex show ?thesis by (intro conjI)
qed

theorem fibonacci_dyn_frame_witness:
  "(0::int) \<le> 2
   \<and> fst (fibonacci_dyn 2 True init_state) = fst (fibonacci_dyn 2 False (init_state\<lparr>fibs := [2 \<mapsto> 1]\<rparr>))
   \<and> fst (fibonacci_dyn 2 True init_state) = Inr 1
   \<and> snd (fibonacci_dyn 2 False init_state) = init_state
   \<and> snd (fibonacci_dyn 2 True init_state) =
        init_state\<lparr>dyn_annots :=
          [Value (Array [0, 1, 1]) ''Found dynamic programming implementation'' ''dyn_array'']\<rparr>"
proof -
  have b: "map canonical64 [0 ..< nat (2 + 1)] = [0, 1, 1]"
    by (simp add: canonical64_def upt_rec numeral_2_eq_2)
  have d: "dyn_annots init_state = []" by (simp add: init_state_def)
  from fibonacci_dyn_frame [of 2 True init_state False "init_state\<lparr>fibs := [2 \<mapsto> 1]\<rparr>"] b d
  show ?thesis by auto
qed

text \<open>
  Claim C8. For every \<open>n \<ge> 0\<close> the dynamic programming implementation returns a signed
  64-bit value that is congruent to the canonical Fibonacci value modulo \<open>2^64\<close>. For every
  \<open>n \<ge> 93\<close> this value differs from the exact Fibonacci number, which is what the hash
  map implementation returns on a sound cache.
\<close>
theorem fibonacci_dyn_wraps:
  assumes "0 \<le> n"
  shows "\<exists>v s'. fibonacci_dyn n track s = (Inr v, s')
           \<and> v mod 2 ^ 64 = canonical (nat n) mod 2 ^ 64
           \<and> - (2 ^ 63) \<le> v \<and> v < 2 ^ 63
           \<and> (93 \<le> n \<longrightarrow>
                (\<forall>track0 s0. cache_ok (fibs s0) \<longrightarrow>
                   (\<exists>u s0'. fibonacci_map n track0 s0 = Some (u, s0')
                      \<and> u = canonical (nat n) \<and> v \<noteq> u)))"
proof -
  define v where "v = sint (canonical64 (nat n))"
  obtain s' where r: "fibonacci_dyn n track s = (Inr v, s')"
    using assms by (simp add: fibonacci_dyn_nonneg v_def)
  have m: "v mod 2 ^ 64 = canonical (nat n) mod 2 ^ 64"
    unfolding v_def by (rule sint_canonical64_mod)
  have lo: "- (2 ^ 63) \<le> v"
    unfolding v_def using sint_ge [of "canonical64 (nat n)"] by simp
  have hi: "v < 2 ^ 63"
    unfolding v_def using sint_lt [of "canonical64 (nat n)"] by simp
  have big: "93 \<le> n \<longrightarrow>
                (\<forall>track0 s0. cache_ok (fibs s0) \<longrightarrow>
                   (\<exists>u s0'. fibonacci_map n track0 s0 = Some (u, s0')
                      \<and> u = canonical (nat n) \<and> v \<noteq> u))"
  proof (intro impI allI)
    fix track0 and s0 :: state
    assume n: "93 \<le> n" and ok: "cache_ok (fibs s0)"
    from assms obtain u s0' where r0: "fibonacci_map n track0 s0 = Some (u, s0')"
      using fibonacci_map_total by blast
    have u: "u = canonical (nat n)"
      using fibonacci_map_sound(2) [OF r0 ok assms] .
    from n have "v \<noteq> canonical (nat n)"
      unfolding v_def by (intro sint_canonical64_overflow) simp
    with r0 u show "\<exists>u s0'. fibonacci_map n track0 s0 = Some (u, s0')
                      \<and> u = canonical (nat n) \<and> v \<noteq> u"
      by simp
  qed
  show ?thesis
    by (rule exI [of _ v], rule exI [of _ s'], intro conjI) (rule r m lo hi big)+
qed

theorem fibonacci_dyn_wraps_witness:
  "(0::int) \<le> 93 \<and> (93::int) \<le> 93 \<and> cache_ok (fibs init_state)
   \<and> fst (fibonacci_dyn 93 True init_state) = Inr (- 6246583658587674878)
   \<and> map_option fst (fibonacci_map 93 True init_state) = Some 12200160415121876738"
proof -
  have ok: "cache_ok (fibs init_state)" by (simp add: cache_ok_def init_state_def)
  have c: "canonical (nat 93) = 12200160415121876738" by (simp add: canonical_93)
  have d: "fst (fibonacci_dyn 93 True init_state) = Inr (- 6246583658587674878)"
    by (simp add: fibonacci_dyn_nonneg canonical64_def canonical_93)
  from fibonacci_dyn_wraps [of 93 True init_state] ok c d
  show ?thesis by auto
qed

section \<open>Work done by a run of increasing calls\<close>

text \<open>The instrumented function, branch by branch, and its agreement with the plain one.\<close>

lemma fibonacci_map_ops_base0: "fibonacci_map_ops 0 track s = Some (0, s, [Invoke 0])"
  by (subst fibonacci_map_ops.simps) simp

lemma fibonacci_map_ops_base1: "fibonacci_map_ops 1 track s = Some (1, s, [Invoke 1])"
  by (subst fibonacci_map_ops.simps) simp

lemma fibonacci_map_ops_hit:
  "n \<noteq> 0 \<Longrightarrow> n \<noteq> 1 \<Longrightarrow> fibs s n = Some v \<Longrightarrow>
   fibonacci_map_ops n track s = Some (v, s, [Invoke n])"
  by (subst fibonacci_map_ops.simps) simp

lemma fibonacci_map_ops_miss:
  "n \<noteq> 0 \<Longrightarrow> n \<noteq> 1 \<Longrightarrow> fibs s n = None \<Longrightarrow>
   fibonacci_map_ops (n - 1) True s = Some (a, s1, l1) \<Longrightarrow>
   fibonacci_map_ops (n - 2) True s1 = Some (b, s2, l2) \<Longrightarrow>
   fibonacci_map_ops n track s =
     Some (a + b, store n (a + b) track s2, Invoke n # l1 @ l2 @ [Addition n, Insertion n])"
  by (subst fibonacci_map_ops.simps) (simp add: store_def Let_def)

lemma fibonacci_map_ops_no_miss:
  assumes "n = 0 \<or> n = 1 \<or> n \<in> dom (fibs s)"
  shows "\<exists>v. fibonacci_map_ops n track s = Some (v, s, [Invoke n])"
proof (cases "n = 0 \<or> n = 1")
  case True
  then show ?thesis
    by (auto simp: fibonacci_map_ops_base0 fibonacci_map_ops_base1)
next
  case False
  with assms obtain v where "fibs s n = Some v" by auto
  with False show ?thesis by (simp add: fibonacci_map_ops_hit)
qed

lemma fibonacci_map_ops_erase_aux:
  assumes "fibonacci_map_ops n track s = Some y"
  shows "fibonacci_map n track s = Some (fst y, fst (snd y))"
  using assms
proof (induction n track s y rule: fibonacci_map_ops.raw_induct [rotated 1, consumes 1, case_names step])
  case (step f n track s y)
  show ?case
  proof (cases "n = 0 \<or> n = 1 \<or> fibs s n \<noteq> None")
    case True
    with step(2) show ?thesis
      by (auto simp: fibonacci_map_base0 fibonacci_map_base1 fibonacci_map_hit split: if_splits)
  next
    case False
    with step(2) obtain a s1 l1 b s2 l2 where
      c1: "f (n - 1) True s = Some (a, s1, l1)" and
      c2: "f (n - 2) True s1 = Some (b, s2, l2)" and
      y: "fst y = a + b" "fst (snd y) = store n (a + b) track s2"
      by (auto simp: store_def Let_def split: bind_splits)
    from step(1) [OF c1] step(1) [OF c2] False show ?thesis
      by (simp add: y fibonacci_map_miss)
  qed
qed

lemma fibonacci_map_ops_erase:
  "fibonacci_map_ops n track s = Some (v, s', l) \<Longrightarrow> fibonacci_map n track s = Some (v, s')"
  using fibonacci_map_ops_erase_aux [of n track s "(v, s', l)"] by simp

lemma call_seq_ops_erase:
  "call_seq_ops ns track s = Some (vs, s', l) \<Longrightarrow> call_seq ns track s = Some (vs, s')"
proof (induction ns arbitrary: s vs l)
  case Nil
  then show ?case by simp
next
  case (Cons n ns)
  from Cons.prems obtain v s1 l1 vs1 l2 where
    c: "fibonacci_map_ops n track s = Some (v, s1, l1)" and
    r: "call_seq_ops ns track s1 = Some (vs1, s', l2)" and
    vs: "vs = v # vs1"
    by (auto split: bind_splits)
  from fibonacci_map_ops_erase [OF c] Cons.IH [OF r] vs show ?case by simp
qed

lemma call_seq_ops_snoc:
  "call_seq_ops ns track s = Some (vs, s1, l1) \<Longrightarrow>
   fibonacci_map_ops n track s1 = Some (v, s2, l2) \<Longrightarrow>
   call_seq_ops (ns @ [n]) track s = Some (vs @ [v], s2, l1 @ l2)"
proof (induction ns arbitrary: s vs l1)
  case Nil
  then show ?case by simp
next
  case (Cons m ns)
  from Cons.prems(1) obtain w t k ws k' where
    c: "fibonacci_map_ops m track s = Some (w, t, k)" and
    r: "call_seq_ops ns track t = Some (ws, s1, k')" and
    e: "vs = w # ws" "l1 = k @ k'"
    by (auto split: bind_splits)
  from Cons.IH [OF r Cons.prems(2)] c e show ?case by simp
qed

text \<open>
  When the cache holds exactly the keys \<open>2..n - 1\<close>, the call for \<open>n\<close> performs five
  operations: its own invocation, two inner invocations that return at once, one
  addition and one insertion.
\<close>

lemma fresh_call_ops:
  assumes "2 \<le> n" and "dom (fibs s) = {2..n - 1}"
  shows "\<exists>v. fibonacci_map_ops n track s =
           Some (v, store n v track s,
                 [Invoke n, Invoke (n - 1), Invoke (n - 2), Addition n, Insertion n])"
proof -
  from assms have none: "fibs s n = None" by (auto simp: domIff [symmetric])
  from assms have "n - 1 = 1 \<or> n - 1 \<in> dom (fibs s)" by auto
  then obtain a where c1: "fibonacci_map_ops (n - 1) True s = Some (a, s, [Invoke (n - 1)])"
    using fibonacci_map_ops_no_miss [of "n - 1" s True] by auto
  from assms have "n - 2 = 0 \<or> n - 2 = 1 \<or> n - 2 \<in> dom (fibs s)" by auto
  then obtain b where c2: "fibonacci_map_ops (n - 2) True s = Some (b, s, [Invoke (n - 2)])"
    using fibonacci_map_ops_no_miss [of "n - 2" s True] by auto
  from assms(1) none c1 c2 show ?thesis
    by (simp add: fibonacci_map_ops_miss)
qed

lemma call_seq_ops_upto:
  assumes "fibs s = Map.empty"
  shows "\<exists>vs s' ops. call_seq_ops (map int [0..<Suc k]) track s = Some (vs, s', ops)
           \<and> dom (fibs s') = {2..int k}
           \<and> length ops = (if k = 0 then 1 else 5 * k - 3)
           \<and> (\<forall>i. count_list ops (Addition i) = (if 2 \<le> i \<and> i \<le> int k then 1 else 0))
           \<and> (\<forall>i. count_list ops (Insertion i) = (if 2 \<le> i \<and> i \<le> int k then 1 else 0))"
proof (induction k)
  case 0
  from assms show ?case by (simp add: fibonacci_map_ops_base0)
next
  case (Suc k)
  then obtain vs s1 ops1 where
    run: "call_seq_ops (map int [0..<Suc k]) track s = Some (vs, s1, ops1)" and
    d: "dom (fibs s1) = {2..int k}" and
    len: "length ops1 = (if k = 0 then 1 else 5 * k - 3)" and
    adds: "\<And>i. count_list ops1 (Addition i) = (if 2 \<le> i \<and> i \<le> int k then 1 else 0)" and
    ins: "\<And>i. count_list ops1 (Insertion i) = (if 2 \<le> i \<and> i \<le> int k then 1 else 0)"
    by blast
  have list: "map int [0..<Suc (Suc k)] = map int [0..<Suc k] @ [int (Suc k)]"
    by simp
  show ?case
  proof (cases "k = 0")
    case True
    have c: "fibonacci_map_ops (int (Suc k)) track s1 = Some (1, s1, [Invoke 1])"
      using True by (simp add: fibonacci_map_ops_base1)
    have "call_seq_ops (map int [0..<Suc (Suc k)]) track s = Some (vs @ [1], s1, ops1 @ [Invoke 1])"
      unfolding list by (rule call_seq_ops_snoc [OF run c])
    moreover have "dom (fibs s1) = {2..int (Suc k)}" using d True by simp
    moreover have "length (ops1 @ [Invoke 1]) = (if Suc k = 0 then 1 else 5 * Suc k - 3)"
      using len True by simp
    moreover have "\<forall>i. count_list (ops1 @ [Invoke 1]) (Addition i) = (if 2 \<le> i \<and> i \<le> int (Suc k) then 1 else 0)"
      using adds True by simp
    moreover have "\<forall>i. count_list (ops1 @ [Invoke 1]) (Insertion i) = (if 2 \<le> i \<and> i \<le> int (Suc k) then 1 else 0)"
      using ins True by simp
    ultimately show ?thesis by blast
  next
    case False
    define n where "n = int (Suc k)"
    from False have n: "2 \<le> n" by (simp add: n_def)
    from d have d': "dom (fibs s1) = {2..n - 1}" by (simp add: n_def)
    define new where "new = [Invoke n, Invoke (n - 1), Invoke (n - 2), Addition n, Insertion n]"
    from fresh_call_ops [OF n d', of track] obtain v where
      c: "fibonacci_map_ops (int (Suc k)) track s1 = Some (v, store n v track s1, new)"
      unfolding new_def n_def by blast
    have "call_seq_ops (map int [0..<Suc (Suc k)]) track s
            = Some (vs @ [v], store n v track s1, ops1 @ new)"
      unfolding list by (rule call_seq_ops_snoc [OF run c])
    moreover have "dom (fibs (store n v track s1)) = {2..int (Suc k)}"
      using d' n by (auto simp: n_def)
    moreover have "length (ops1 @ new) = (if Suc k = 0 then 1 else 5 * Suc k - 3)"
      using len False by (simp add: new_def)
    moreover have "\<forall>i. count_list (ops1 @ new) (Addition i) = (if 2 \<le> i \<and> i \<le> int (Suc k) then 1 else 0)"
      using adds False by (auto simp: new_def n_def)
    moreover have "\<forall>i. count_list (ops1 @ new) (Insertion i) = (if 2 \<le> i \<and> i \<le> int (Suc k) then 1 else 0)"
      using ins False by (auto simp: new_def n_def)
    ultimately show ?thesis by blast
  qed
qed


text \<open>
  Claim C7. Starting from an empty cache, the calls for \<open>0, 1, ..., k\<close> in increasing
  order all return, with the values and final state of the plain function. In the log of
  the whole run every index has at most one addition of two subresults and at most one
  insertion into the cache, and the total number of primitive operations (invocations,
  additions, insertions) is \<open>5k - 3\<close> for \<open>k \<ge> 1\<close> (and 1 for \<open>k = 0\<close>), which is at most
  \<open>5k + 1\<close>: linear in \<open>k\<close>.
\<close>
theorem memoized_sequence_linear_work:
  assumes "fibs s = Map.empty"
  shows "\<exists>vs s' ops. call_seq_ops (map int [0..<Suc k]) track s = Some (vs, s', ops)
           \<and> call_seq (map int [0..<Suc k]) track s = Some (vs, s')
           \<and> (\<forall>i. count_list ops (Addition i) \<le> 1)
           \<and> (\<forall>i. count_list ops (Insertion i) \<le> 1)
           \<and> length ops = (if k = 0 then 1 else 5 * k - 3)
           \<and> length ops \<le> 5 * k + 1"
proof -
  from call_seq_ops_upto [OF assms, of k track] obtain vs s' ops where
    run: "call_seq_ops (map int [0..<Suc k]) track s = Some (vs, s', ops)" and
    len: "length ops = (if k = 0 then 1 else 5 * k - 3)" and
    adds: "\<And>i. count_list ops (Addition i) = (if 2 \<le> i \<and> i \<le> int k then 1 else 0)" and
    ins: "\<And>i. count_list ops (Insertion i) = (if 2 \<le> i \<and> i \<le> int k then 1 else 0)"
    by blast
  have plain: "call_seq (map int [0..<Suc k]) track s = Some (vs, s')"
    using call_seq_ops_erase [OF run] .
  have a1: "\<forall>i. count_list ops (Addition i) \<le> 1" by (simp add: adds)
  have i1: "\<forall>i. count_list ops (Insertion i) \<le> 1" by (simp add: ins)
  have bound: "length ops \<le> 5 * k + 1" using len by (cases "k = 0") simp_all
  show ?thesis
    by (rule exI [of _ vs], rule exI [of _ s'], rule exI [of _ ops], intro conjI)
       (rule run plain a1 i1 len bound)+
qed

theorem memoized_sequence_linear_work_witness:
  "fibs init_state = Map.empty
   \<and> (\<exists>s' ops. call_seq_ops (map int [0..<Suc 3]) False init_state = Some ([0, 1, 1, 2], s', ops)
          \<and> call_seq (map int [0..<Suc 3]) False init_state = Some ([0, 1, 1, 2], s')
          \<and> length ops = 12)"
proof -
  have e: "fibs init_state = Map.empty" by (simp add: init_state_def)
  have v: "map_option fst (call_seq (map int [0..<Suc 3]) False init_state) = Some [0, 1, 1, 2]"
    by code_simp
  from memoized_sequence_linear_work [OF e, of 3 False] v e
  show ?thesis by auto
qed

end
